theory Spec2Isabelle
  imports Main
begin

section \<open>The table-of-contents converter of \<^verbatim>\<open>sphinx_material/__init__.py\<close>\<close>

subsection \<open>Source trees and navigation entries\<close>

text \<open>
  The converter walks a docutils tree. Only the node classes for which
  \<^verbatim>\<open>_TocVisitor\<close> has a \<^verbatim>\<open>visit_\<close> method occur here. The children of a
  \<^verbatim>\<open>reference\<close> and of a \<^verbatim>\<open>caption\<close> are never walked (both visits raise
  \<^verbatim>\<open>SkipChildren\<close>); they are only read through \<^verbatim>\<open>_render_title\<close>, which joins
  \<^verbatim>\<open>x.astext()\<close> over them, so such a node carries the list of these texts.
  A \<^verbatim>\<open>reference\<close> also carries \<^verbatim>\<open>node.get('refuri')\<close> (\<open>None\<close> when the attribute
  is absent); a \<^verbatim>\<open>bullet_list\<close> and a \<^verbatim>\<open>list_item\<close> carry the truth value of
  \<^verbatim>\<open>node.get('iscurrent', False)\<close>.
\<close>

datatype node =
    Reference "string list" "string option"
  | CompactParagraph "node list"
  | Toctree "node list"
  | Paragraph "node list"
  | Caption "string list"
  | BulletList bool "node list"
  | ListItem bool "node list"

text \<open>
  The source compares parents by object identity
  (\<^verbatim>\<open>self._prev_caption.parent is node.parent\<close>). A node is identified by its path
  from the walked root (the positions of the children taken); the parent of the root
  is \<open>None\<close>.
\<close>

type_synonym node_id = "nat list"

text \<open>The dictionaries built by \<^verbatim>\<open>get_result\<close> and \<^verbatim>\<open>visit_bullet_list\<close>.\<close>

datatype entry =
  Entry (title: "string option") (url: "string option") (children: "entry list") (active: bool)

datatype error = AttributeError | ValueError | NameError

subsection \<open>The visitor state\<close>

text \<open>
  The fields \<^verbatim>\<open>_prev_caption\<close>, \<^verbatim>\<open>_rendered_title\<close>, \<^verbatim>\<open>_url\<close>, \<^verbatim>\<open>_active\<close>,
  \<^verbatim>\<open>_children\<close>, \<^verbatim>\<open>_exclude_local\<close> and \<^verbatim>\<open>_local_only\<close> of \<^verbatim>\<open>_TocVisitor\<close>.
  Of the pending caption only what the code reads is kept: the texts of its children
  and the identity of its parent.
\<close>

record TocVisitor =
  v_prev_caption :: "(string list \<times> node_id option) option"
  v_rendered_title :: "string option"
  v_url :: "string option"
  v_active :: bool
  v_children :: "entry list"
  v_exclude_local :: bool
  v_local_only :: bool

definition init_visitor :: "bool \<Rightarrow> TocVisitor" where
  "init_visitor exclude_local =
     \<lparr> v_prev_caption = None, v_rendered_title = None, v_url = None, v_active = False,
       v_children = [], v_exclude_local = exclude_local, v_local_only = True \<rparr>"

text \<open>\<^verbatim>\<open>str.find\<close> for a single character: the first index, or \<open>-1\<close>.\<close>

fun str_find :: "string \<Rightarrow> char \<Rightarrow> int" where
  "str_find [] c = - 1"
| "str_find (x # xs) c =
     (if x = c then 0 else (let r = str_find xs c in if r = - 1 then - 1 else r + 1))"

definition render_title :: "string list \<Rightarrow> string" where
  "render_title texts = concat texts"

subsection \<open>The visit methods\<close>

text \<open>
  \<^verbatim>\<open>visit_reference\<close>: with \<^verbatim>\<open>_exclude_local\<close> set, \<^verbatim>\<open>self._url.find('#')\<close> is
  evaluated, which raises \<^verbatim>\<open>AttributeError\<close> when the URL is \<open>None\<close>; the
  assignments to \<^verbatim>\<open>_rendered_title\<close> and \<^verbatim>\<open>_url\<close> come first.
\<close>

definition visit_reference :: "TocVisitor \<Rightarrow> string list \<Rightarrow> string option \<Rightarrow> error + TocVisitor" where
  "visit_reference v texts refuri =
     (let v1 = v\<lparr>v_rendered_title := Some (render_title texts)\<rparr>;
          v2 = v1\<lparr>v_url := refuri\<rparr>
      in if v_exclude_local v2 then
           (case v_url v2 of
              None \<Rightarrow> Inl AttributeError
            | Some u \<Rightarrow> if str_find u CHR ''#'' = - 1
                        then Inr (v2\<lparr>v_local_only := False\<rparr>) else Inr v2)
         else Inr v2)"

definition visit_caption :: "TocVisitor \<Rightarrow> string list \<Rightarrow> node_id option \<Rightarrow> TocVisitor" where
  "visit_caption v texts parent = v\<lparr>v_prev_caption := Some (texts, parent)\<rparr>"

definition get_result :: "TocVisitor \<Rightarrow> entry" where
  "get_result v = Entry (v_rendered_title v) (v_url v) (v_children v) (v_active v)"

text \<open>The fresh visitor of \<^verbatim>\<open>visit_bullet_list\<close> and \<^verbatim>\<open>visit_list_item\<close>.\<close>

definition child_visitor :: "bool \<Rightarrow> bool \<Rightarrow> TocVisitor" where
  "child_visitor exclude_local iscurrent =
     (let cv = init_visitor exclude_local
      in if iscurrent then cv\<lparr>v_active := True\<rparr> else cv)"

text \<open>What \<^verbatim>\<open>visit_bullet_list\<close> does to the visitor once the child visitor is back.\<close>

definition add_group :: "TocVisitor \<Rightarrow> string \<Rightarrow> TocVisitor \<Rightarrow> TocVisitor" where
  "add_group v group_title cv =
     (let chs = v_children cv;
          v1 = (if \<not> v_local_only cv then v\<lparr>v_local_only := False\<rparr> else v);
          u = (case chs of [] \<Rightarrow> None | c # _ \<Rightarrow> url c)
      in v1\<lparr>v_children := v_children v1 @ [Entry (Some group_title) u chs (v_active cv)]\<rparr>)"

text \<open>What \<^verbatim>\<open>visit_list_item\<close> does to the visitor once the child visitor is back.\<close>

definition add_item :: "TocVisitor \<Rightarrow> TocVisitor \<Rightarrow> TocVisitor" where
  "add_item v cv =
     (let child_result = get_result cv
      in if v_exclude_local v \<and> v_local_only cv then v
         else (v\<lparr>v_local_only := False\<rparr>)\<lparr>v_children := v_children v @ [child_result]\<rparr>)"

subsection \<open>The walk\<close>

text \<open>
  \<^verbatim>\<open>Node.walk\<close> of docutils calls the visit method of the node and then walks the
  children in order with the same visitor, unless the visit raised \<^verbatim>\<open>SkipChildren\<close>.
  Any other exception ends the whole walk. \<open>walk v p i n\<close> walks the node \<open>n\<close>,
  whose identity is \<open>i\<close> and whose parent is \<open>p\<close>; \<open>walk_children v i k ns\<close> walks
  the children \<open>ns\<close> of the node \<open>i\<close>, the first of them at position \<open>k\<close>.
\<close>

function (sequential) walk :: "TocVisitor \<Rightarrow> node_id option \<Rightarrow> node_id \<Rightarrow> node \<Rightarrow> error + TocVisitor"
  and walk_children :: "TocVisitor \<Rightarrow> node_id \<Rightarrow> nat \<Rightarrow> node list \<Rightarrow> error + TocVisitor"
where
  "walk v p i (Reference texts refuri) = visit_reference v texts refuri"
| "walk v p i (CompactParagraph ns) = walk_children v i 0 ns"
| "walk v p i (Toctree ns) = Inr v"
| "walk v p i (Paragraph ns) = walk_children v i 0 ns"
| "walk v p i (Caption texts) = Inr (visit_caption v texts p)"
| "walk v p i (BulletList iscurrent ns) =
     (case v_prev_caption v of
        None \<Rightarrow> walk_children v i 0 ns
      | Some (texts, caption_parent) \<Rightarrow>
          if caption_parent = p then
            (let group_title = render_title texts;
                 v1 = v\<lparr>v_prev_caption := None\<rparr>
             in case walk (child_visitor (v_exclude_local v1) iscurrent) p i (BulletList iscurrent ns) of
                  Inl e \<Rightarrow> Inl e
                | Inr cv \<Rightarrow> Inr (add_group v1 group_title cv))
          else walk_children v i 0 ns)"
| "walk v p i (ListItem iscurrent ns) =
     (case walk_children (child_visitor (v_exclude_local v) iscurrent) i 0 ns of
        Inl e \<Rightarrow> Inl e
      | Inr cv \<Rightarrow> Inr (add_item v cv))"
| "walk_children v i k [] = Inr v"
| "walk_children v i k (n # ns) =
     (case walk v (Some i) (i @ [k]) n of
        Inl e \<Rightarrow> Inl e
      | Inr v' \<Rightarrow> walk_children v' i (Suc k) ns)"
  by pat_completeness auto

termination
  by (relation "measure (\<lambda>x. case x of
        Inl (v, p, i, n) \<Rightarrow> 2 * size n + (if v_prev_caption v = None then 0 else 1)
      | Inr (v, i, k, ns) \<Rightarrow> 2 * size_list size ns)")
     (auto simp: child_visitor_def init_visitor_def Let_def split: if_splits)

text \<open>\<^verbatim>\<open>_get_mkdocs_toc\<close>: a fresh visitor walks the tree; its \<^verbatim>\<open>_children\<close> are returned.\<close>

definition get_mkdocs_toc :: "node \<Rightarrow> bool \<Rightarrow> error + entry list" where
  "get_mkdocs_toc toc_node exclude_local =
     (case walk (init_visitor exclude_local) None [] toc_node of
        Inl e \<Rightarrow> Inl e
      | Inr v \<Rightarrow> Inr (v_children v))"

subsection \<open>Notions used to state the properties of the converter\<close>

text \<open>
  A subtree links to a page when a \<^verbatim>\<open>reference\<close> in it, outside every \<^verbatim>\<open>toctree\<close>,
  has a URL without \<^verbatim>\<open>#\<close>: the test \<^verbatim>\<open>self._url.find('#') == -1\<close> of
  \<^verbatim>\<open>visit_reference\<close>.
\<close>

fun has_page_link :: "node \<Rightarrow> bool" where
  "has_page_link (Reference texts refuri) =
     (case refuri of None \<Rightarrow> False | Some u \<Rightarrow> CHR ''#'' \<notin> set u)"
| "has_page_link (CompactParagraph ns) = list_ex has_page_link ns"
| "has_page_link (Toctree ns) = False"
| "has_page_link (Paragraph ns) = list_ex has_page_link ns"
| "has_page_link (Caption texts) = False"
| "has_page_link (BulletList iscurrent ns) = list_ex has_page_link ns"
| "has_page_link (ListItem iscurrent ns) = list_ex has_page_link ns"

text \<open>
  The references that one visitor visits itself while it walks a node, in the order of
  the visits, each with its texts and its URL. The children of a \<^verbatim>\<open>toctree\<close>, of a
  \<^verbatim>\<open>list_item\<close> and of a \<^verbatim>\<open>bullet_list\<close> grouped under a caption are skipped by
  this visitor (the last two are walked by a visitor of their own). The first argument
  is the parent of the pending caption, if there is one; it is returned as the walk
  leaves it.
\<close>

fun visited_references ::
    "node_id option option \<Rightarrow> node_id option \<Rightarrow> node_id \<Rightarrow> node
       \<Rightarrow> (string list \<times> string option) list \<times> node_id option option"
  and visited_references_children ::
    "node_id option option \<Rightarrow> node_id \<Rightarrow> nat \<Rightarrow> node list
       \<Rightarrow> (string list \<times> string option) list \<times> node_id option option"
where
  "visited_references pc p i (Reference texts refuri) = ([(texts, refuri)], pc)"
| "visited_references pc p i (CompactParagraph ns) = visited_references_children pc i 0 ns"
| "visited_references pc p i (Toctree ns) = ([], pc)"
| "visited_references pc p i (Paragraph ns) = visited_references_children pc i 0 ns"
| "visited_references pc p i (Caption texts) = ([], Some p)"
| "visited_references pc p i (BulletList iscurrent ns) =
     (if pc = Some p then ([], None) else visited_references_children pc i 0 ns)"
| "visited_references pc p i (ListItem iscurrent ns) = ([], pc)"
| "visited_references_children pc i k [] = ([], pc)"
| "visited_references_children pc i k (n # ns) =
     (case visited_references pc (Some i) (i @ [k]) n of
        (rs, pc') \<Rightarrow>
          (case visited_references_children pc' i (Suc k) ns of
             (rs', pc'') \<Rightarrow> (rs @ rs', pc'')))"

text \<open>The same visitor with every node identity it holds moved below the node \<open>r\<close>.\<close>

definition move_visitor :: "node_id \<Rightarrow> TocVisitor \<Rightarrow> TocVisitor" where
  "move_visitor r v =
     v\<lparr>v_prev_caption :=
         map_option (\<lambda>(texts, parent). (texts, map_option ((@) r) parent)) (v_prev_caption v)\<rparr>"

definition is_list_item :: "node \<Rightarrow> bool" where
  "is_list_item n = (case n of ListItem iscurrent ns \<Rightarrow> True | _ \<Rightarrow> False)"

section \<open>The page hook and the reformatting of pages\<close>

text \<open>
  What \<^verbatim>\<open>add_html_link\<close> and \<^verbatim>\<open>reformat_pages\<close> read and change of the
  application: three theme options (\<^verbatim>\<open>site_url\<close> is the empty string and the two
  flags are \<open>False\<close> when absent), the link suffix of the builder, the output
  directory, and the two shared lists that \<^verbatim>\<open>setup\<close> creates empty.
\<close>

record app =
  site_url :: string
  html_minify :: bool
  html_prettify :: bool
  link_suffix :: string
  outdir :: string
  sitemap_links :: "string list"
  site_pages :: "string list"

text \<open>\<^verbatim>\<open>os.path.join\<close> of two components, as \<^verbatim>\<open>posixpath\<close> defines it.\<close>

definition os_path_join :: "string \<Rightarrow> string \<Rightarrow> string" where
  "os_path_join a b =
     (if b \<noteq> [] \<and> hd b = CHR ''/'' then b
      else if a = [] \<or> last a = CHR ''/'' then a @ b
      else a @ ''/'' @ b)"

text \<open>
  \<^verbatim>\<open>add_html_link\<close> appends to \<^verbatim>\<open>sitemap_links\<close> before it tests the two flags,
  so the application is returned also when the hook raises.
\<close>

definition add_html_link :: "app \<Rightarrow> string \<Rightarrow> error option \<times> app" where
  "add_html_link a pagename =
     (let base_url = site_url a;
          a1 = (if base_url \<noteq> [] then
                  (let base_url' = (if last base_url \<noteq> CHR ''/'' then base_url @ ''/'' else base_url);
                       full_url = base_url' @ pagename @ link_suffix a
                   in a\<lparr>sitemap_links := sitemap_links a @ [full_url]\<rparr>)
                else a);
          minify = html_minify a1;
          prettify = html_prettify a1
      in if minify \<and> prettify then (Some ValueError, a1)
         else if minify \<or> prettify then
           (None, a1\<lparr>site_pages := site_pages a1 @ [os_path_join (outdir a1) (pagename @ ''.html'')]\<rparr>)
         else (None, a1))"

text \<open>
  The loop of \<^verbatim>\<open>reformat_pages\<close> over the collected pages: the pages written so far
  and the exception that ended the loop, if any. Without \<^verbatim>\<open>html_minify\<close> the body
  calls \<^verbatim>\<open>BeautifulSoup\<close>, a name the module never binds, before it writes the page.
\<close>

fun reformat_loop :: "bool \<Rightarrow> string list \<Rightarrow> string list \<times> error option" where
  "reformat_loop minify [] = ([], None)"
| "reformat_loop minify (page # pages) =
     (if minify then
        (case reformat_loop minify pages of (written, err) \<Rightarrow> (page # written, err))
      else ([], Some NameError))"

text \<open>
  \<^verbatim>\<open>reformat_pages\<close>: the second argument tells whether \<^verbatim>\<open>exception\<close> is not
  \<open>None\<close>. The result is the exception raised, the pages written and the application.
\<close>

definition reformat_pages :: "app \<Rightarrow> bool \<Rightarrow> error option \<times> string list \<times> app" where
  "reformat_pages a exception_given =
     (if exception_given \<or> site_pages a = [] then (None, [], a)
      else
        (case reformat_loop (html_minify a) (site_pages a) of
           (written, Some e) \<Rightarrow> (Some e, written, a)
         | (written, None) \<Rightarrow> (None, written, a\<lparr>site_pages := []\<rparr>)))"

text \<open>
  The application after the page hook has been called for each of the pages in turn,
  whether or not a call raised.
\<close>

fun after_page_hooks :: "app \<Rightarrow> string list \<Rightarrow> app" where
  "after_page_hooks a [] = a"
| "after_page_hooks a (pagename # pagenames) =
     after_page_hooks (snd (add_html_link a pagename)) pagenames"

section \<open>Basic facts about the walk\<close>

lemma str_find_ge: "- 1 \<le> str_find s c"
  by (induction s) (auto simp: Let_def)

lemma str_find_absent: "str_find s c = - 1 \<longleftrightarrow> c \<notin> set s"
proof (induction s)
  case Nil
  show ?case by simp
next
  case (Cons x xs)
  have "- 1 \<le> str_find xs c" by (rule str_find_ge)
  with Cons show ?case by (auto simp: Let_def)
qed

lemma child_visitor_fields [simp]:
  "v_prev_caption (child_visitor e c) = None"
  "v_rendered_title (child_visitor e c) = None"
  "v_url (child_visitor e c) = None"
  "v_active (child_visitor e c) = c"
  "v_children (child_visitor e c) = []"
  "v_exclude_local (child_visitor e c) = e"
  "v_local_only (child_visitor e c) = True"
  by (simp_all add: child_visitor_def init_visitor_def Let_def)

text \<open>
  A \<^verbatim>\<open>bullet_list\<close> is grouped when a caption with the same parent is pending. The
  child visitor has no pending caption, so its own \<^verbatim>\<open>visit_bullet_list\<close> falls
  through and it walks the children of the list.
\<close>

lemma walk_BulletList:
  "walk v p i (BulletList c ns) =
     (case v_prev_caption v of
        None \<Rightarrow> walk_children v i 0 ns
      | Some (texts, caption_parent) \<Rightarrow>
          if caption_parent = p then
            (case walk_children (child_visitor (v_exclude_local v) c) i 0 ns of
               Inl e \<Rightarrow> Inl e
             | Inr cv \<Rightarrow> Inr (add_group (v\<lparr>v_prev_caption := None\<rparr>) (render_title texts) cv))
          else walk_children v i 0 ns)"
  by (simp add: child_visitor_def init_visitor_def Let_def split: option.splits)

declare walk.simps(6) [simp del]

text \<open>Induction over the tree, for properties of all visitors.\<close>

lemma walk_induct [case_names Reference CompactParagraph Toctree Paragraph Caption BulletList ListItem Nil Cons]:
  fixes P :: "TocVisitor \<Rightarrow> node_id option \<Rightarrow> node_id \<Rightarrow> node \<Rightarrow> bool"
    and Q :: "TocVisitor \<Rightarrow> node_id \<Rightarrow> nat \<Rightarrow> node list \<Rightarrow> bool"
  assumes ref: "\<And>v p i texts refuri. P v p i (Reference texts refuri)"
    and cpar: "\<And>v p i ns. (\<And>w. Q w i 0 ns) \<Longrightarrow> P v p i (CompactParagraph ns)"
    and toc: "\<And>v p i ns. P v p i (Toctree ns)"
    and par: "\<And>v p i ns. (\<And>w. Q w i 0 ns) \<Longrightarrow> P v p i (Paragraph ns)"
    and cap: "\<And>v p i texts. P v p i (Caption texts)"
    and bl: "\<And>v p i c ns. (\<And>w. Q w i 0 ns) \<Longrightarrow> P v p i (BulletList c ns)"
    and li: "\<And>v p i c ns. (\<And>w. Q w i 0 ns) \<Longrightarrow> P v p i (ListItem c ns)"
    and nil: "\<And>v i k. Q v i k []"
    and cons: "\<And>v i k n ns. (\<And>w. P w (Some i) (i @ [k]) n) \<Longrightarrow> (\<And>w. Q w i (Suc k) ns)
                 \<Longrightarrow> Q v i k (n # ns)"
  shows "P v p i n" and "Q v i k ns"
proof -
  have lift: "Q v i k ns" if "\<And>n v p i. n \<in> set ns \<Longrightarrow> P v p i n" for ns v i k
    using that
  proof (induction ns arbitrary: v k)
    case Nil
    show ?case by (rule nil)
  next
    case (Cons n ns)
    show ?case
      by (rule cons) (simp_all add: Cons)
  qed
  have every: "P v p i n" for v p i n
  proof (induction n arbitrary: v p i)
    case (Reference texts refuri)
    show ?case by (rule ref)
  next
    case (CompactParagraph ns)
    show ?case by (rule cpar) (rule lift, rule CompactParagraph)
  next
    case (Toctree ns)
    show ?case by (rule toc)
  next
    case (Paragraph ns)
    show ?case by (rule par) (rule lift, rule Paragraph)
  next
    case (Caption texts)
    show ?case by (rule cap)
  next
    case (BulletList c ns)
    show ?case by (rule bl) (rule lift, rule BulletList)
  next
    case (ListItem c ns)
    show ?case by (rule li) (rule lift, rule ListItem)
  qed
  show "P v p i n" by (rule every)
  show "Q v i k ns" by (rule lift) (rule every)
qed

text \<open>
  A walk never changes \<^verbatim>\<open>_exclude_local\<close> or \<^verbatim>\<open>_active\<close> of its visitor, and it
  only appends to \<^verbatim>\<open>_children\<close>.
\<close>

lemma walk_frame:
  "walk v p i n = Inr v' \<Longrightarrow>
     v_exclude_local v' = v_exclude_local v \<and> v_active v' = v_active v \<and>
     (\<exists>es. v_children v' = v_children v @ es)"
  and walk_children_frame:
  "walk_children v i k ns = Inr v' \<Longrightarrow>
     v_exclude_local v' = v_exclude_local v \<and> v_active v' = v_active v \<and>
     (\<exists>es. v_children v' = v_children v @ es)"
proof (induction v p i n and v i k ns arbitrary: v' and v' rule: walk_induct)
  case (Reference v p i texts refuri)
  then show ?case
    by (auto simp: visit_reference_def Let_def split: if_splits option.splits)
next
  case (CompactParagraph v p i ns)
  then show ?case by simp
next
  case (Toctree v p i ns)
  then show ?case by simp
next
  case (Paragraph v p i ns)
  then show ?case by simp
next
  case (Caption v p i texts)
  then show ?case by (auto simp: visit_caption_def)
next
  case (BulletList v p i c ns)
  then show ?case
    by (auto simp: walk_BulletList add_group_def Let_def split: option.splits if_splits sum.splits)
next
  case (ListItem v p i c ns)
  then show ?case
    by (auto simp: add_item_def Let_def split: sum.splits if_splits)
next
  case (Nil v i k)
  then show ?case by simp
next
  case (Cons v i k n ns)
  from Cons.prems obtain w where w: "walk v (Some i) (i @ [k]) n = Inr w"
    and r: "walk_children w i (Suc k) ns = Inr v'"
    by (auto split: sum.splits)
  from Cons.IH(1)[OF w] Cons.IH(2)[OF r] show ?case by auto
qed

lemmas toc_defs = get_mkdocs_toc_def init_visitor_def child_visitor_def visit_reference_def
  visit_caption_def add_group_def add_item_def get_result_def walk_BulletList Let_def

text \<open>
  With \<^verbatim>\<open>_exclude_local\<close> set, \<^verbatim>\<open>_local_only\<close> is cleared by a walk exactly when
  the walked subtree links to a page.
\<close>

lemma walk_local_only:
  "v_exclude_local v \<Longrightarrow> walk v p i n = Inr v' \<Longrightarrow>
     v_local_only v' = (v_local_only v \<and> \<not> has_page_link n)"
  and walk_children_local_only:
  "v_exclude_local v \<Longrightarrow> walk_children v i k ns = Inr v' \<Longrightarrow>
     v_local_only v' = (v_local_only v \<and> \<not> list_ex has_page_link ns)"
proof (induction v p i n and v i k ns arbitrary: v' and v' rule: walk_induct)
  case (Reference v p i texts refuri)
  then show ?case
    by (auto simp: visit_reference_def Let_def str_find_absent
        split: if_splits option.splits)
next
  case (CompactParagraph v p i ns)
  then show ?case by simp
next
  case (Toctree v p i ns)
  then show ?case by auto
next
  case (Paragraph v p i ns)
  then show ?case by simp
next
  case (Caption v p i texts)
  then show ?case by (auto simp: visit_caption_def)
next
  case (BulletList v p i c ns)
  have cv: "v_exclude_local (child_visitor (v_exclude_local v) c)"
    "v_local_only (child_visitor (v_exclude_local v) c)"
    using BulletList.prems(1) by simp_all
  show ?case
  proof (cases "\<exists>texts. v_prev_caption v = Some (texts, p)")
    case True
    then obtain texts where pc: "v_prev_caption v = Some (texts, p)" by blast
    with BulletList.prems(2) obtain w where
      w: "walk_children (child_visitor (v_exclude_local v) c) i 0 ns = Inr w"
      and v': "v' = add_group (v\<lparr>v_prev_caption := None\<rparr>) (render_title texts) w"
      by (auto simp: walk_BulletList split: sum.splits)
    from BulletList.IH[OF cv(1) w] cv(2) have "v_local_only w = (\<not> list_ex has_page_link ns)"
      by simp
    with v' show ?thesis by (simp add: add_group_def Let_def)
  next
    case False
    with BulletList.prems(2) have "walk_children v i 0 ns = Inr v'"
      by (auto simp: walk_BulletList split: option.splits if_splits)
    from BulletList.IH[OF BulletList.prems(1) this] show ?thesis by simp
  qed
next
  case (ListItem v p i c ns)
  have cv: "v_exclude_local (child_visitor (v_exclude_local v) c)"
    "v_local_only (child_visitor (v_exclude_local v) c)"
    using ListItem.prems(1) by simp_all
  from ListItem.prems(2) obtain w where
    w: "walk_children (child_visitor (v_exclude_local v) c) i 0 ns = Inr w"
    and v': "v' = add_item v w"
    by (auto split: sum.splits)
  from ListItem.IH[OF cv(1) w] cv(2) have "v_local_only w = (\<not> list_ex has_page_link ns)"
    by simp
  with v' ListItem.prems(1) show ?case by (simp add: add_item_def Let_def)
next
  case (Nil v i k)
  then show ?case by simp
next
  case (Cons v i k n ns)
  from Cons.prems(2) obtain w where w: "walk v (Some i) (i @ [k]) n = Inr w"
    and r: "walk_children w i (Suc k) ns = Inr v'"
    by (auto split: sum.splits)
  from walk_frame[OF w] Cons.prems(1) have e: "v_exclude_local w" by simp
  from Cons.IH(1)[OF Cons.prems(1) w] Cons.IH(2)[OF e r] show ?case by auto
qed


section \<open>Pruning of page-local entries\<close>

text \<open>
  C1 (as amended). With \<^verbatim>\<open>exclude_local\<close> set, the entry of a list item is kept
  exactly when a reference below the item, outside every toctree, has a URL without
  \<^verbatim>\<open>#\<close>; without \<^verbatim>\<open>exclude_local\<close> it is always kept. A URL with a path and a
  fragment counts as local: of a caption group with the children \<^verbatim>\<open>page2.html#x\<close> and
  \<^verbatim>\<open>#a\<close> nothing is left under the group with \<^verbatim>\<open>exclude_local\<close> set, and both
  children are kept without it.
\<close>

theorem list_item_kept_iff_page_link:
  "(walk v p i (ListItem c ns) = Inr v' \<longrightarrow>
      (\<exists>cv. walk_children (child_visitor (v_exclude_local v) c) i 0 ns = Inr cv \<and>
         v_children v' =
           (if v_exclude_local v \<and> \<not> has_page_link (ListItem c ns) then v_children v
            else v_children v @ [get_result cv])))
   \<and> get_mkdocs_toc
     (CompactParagraph
        [Caption g,
         BulletList c0
           [ListItem c1 [CompactParagraph [Reference t1 (Some ''page2.html#x'')]],
            ListItem c2 [CompactParagraph [Reference t2 (Some ''#a'')]]]]) True
     = Inr [Entry (Some (render_title g)) None [] c0]
   \<and> get_mkdocs_toc
     (CompactParagraph
        [Caption g,
         BulletList c0
           [ListItem c1 [CompactParagraph [Reference t1 (Some ''page2.html#x'')]],
            ListItem c2 [CompactParagraph [Reference t2 (Some ''#a'')]]]]) False
     = Inr [Entry (Some (render_title g)) (Some ''page2.html#x'')
              [Entry (Some (render_title t1)) (Some ''page2.html#x'') [] c1,
               Entry (Some (render_title t2)) (Some ''#a'') [] c2] c0]"
proof -
  have general: "\<exists>cv. walk_children (child_visitor (v_exclude_local v) c) i 0 ns = Inr cv \<and>
         v_children v' =
           (if v_exclude_local v \<and> \<not> has_page_link (ListItem c ns) then v_children v
            else v_children v @ [get_result cv])"
    if a: "walk v p i (ListItem c ns) = Inr v'"
  proof -
    from a obtain w where
      w: "walk_children (child_visitor (v_exclude_local v) c) i 0 ns = Inr w"
      and v': "v' = add_item v w"
      by (auto split: sum.splits)
    show ?thesis
    proof (cases "v_exclude_local v")
      case True
      then have cv: "v_exclude_local (child_visitor (v_exclude_local v) c)"
        "v_local_only (child_visitor (v_exclude_local v) c)"
        by simp_all
      from walk_children_local_only[OF cv(1) w] cv(2)
      have "v_local_only w = (\<not> list_ex has_page_link ns)" by simp
      with w v' True show ?thesis by (simp add: add_item_def Let_def)
    next
      case False
      with w v' show ?thesis by (simp add: add_item_def Let_def)
    qed
  qed
  have ex1: "get_mkdocs_toc
     (CompactParagraph
        [Caption g,
         BulletList c0
           [ListItem c1 [CompactParagraph [Reference t1 (Some ''page2.html#x'')]],
            ListItem c2 [CompactParagraph [Reference t2 (Some ''#a'')]]]]) True
     = Inr [Entry (Some (render_title g)) None [] c0]"
    by (simp add: toc_defs)
  have ex2: "get_mkdocs_toc
     (CompactParagraph
        [Caption g,
         BulletList c0
           [ListItem c1 [CompactParagraph [Reference t1 (Some ''page2.html#x'')]],
            ListItem c2 [CompactParagraph [Reference t2 (Some ''#a'')]]]]) False
     = Inr [Entry (Some (render_title g)) (Some ''page2.html#x'')
              [Entry (Some (render_title t1)) (Some ''page2.html#x'') [] c1,
               Entry (Some (render_title t2)) (Some ''#a'') [] c2] c0]"
    by (simp add: toc_defs)
  from general ex1 ex2 show ?thesis by blast
qed

theorem list_item_kept_iff_page_link_witness:
  "walk (init_visitor True) None []
       (ListItem False [CompactParagraph [Reference [''Page''] (Some ''page2.html'')]])
     = Inr ((init_visitor True)
             \<lparr>v_children := [Entry (Some ''Page'') (Some ''page2.html'') [] False],
              v_local_only := False\<rparr>)
   \<and> has_page_link (ListItem False [CompactParagraph [Reference [''Page''] (Some ''page2.html'')]])
   \<and> v_children ((init_visitor True)
             \<lparr>v_children := [Entry (Some ''Page'') (Some ''page2.html'') [] False],
              v_local_only := False\<rparr>)
     = v_children (init_visitor True) @ [Entry (Some ''Page'') (Some ''page2.html'') [] False]"
proof -
  have h: "walk (init_visitor True) None []
       (ListItem False [CompactParagraph [Reference [''Page''] (Some ''page2.html'')]])
     = Inr ((init_visitor True)
             \<lparr>v_children := [Entry (Some ''Page'') (Some ''page2.html'') [] False],
              v_local_only := False\<rparr>)"
    by (simp add: toc_defs render_title_def)
  show ?thesis
    using h list_item_kept_iff_page_link
      [of "init_visitor True" None "[]" False
          "[CompactParagraph [Reference [''Page''] (Some ''page2.html'')]]"
          "(init_visitor True)
             \<lparr>v_children := [Entry (Some ''Page'') (Some ''page2.html'') [] False],
              v_local_only := False\<rparr>"]
    by (simp add: toc_defs)
qed

text \<open>
  The claim as it was stated fails: with \<^verbatim>\<open>exclude_local\<close> set, neither child of the
  mixed group is retained.
\<close>

theorem mixed_group_counterexample:
  "get_mkdocs_toc
     (CompactParagraph
        [Caption [''Group''],
         BulletList False
           [ListItem False [CompactParagraph [Reference [''X''] (Some ''page2.html#x'')]],
            ListItem False [CompactParagraph [Reference [''A''] (Some ''#a'')]]]]) True
     = Inr [Entry (Some ''Group'') None [] False]"
  by (simp add: toc_defs render_title_def)

text \<open>
  C5. A caption group whose only references have the fragment-only URLs \<^verbatim>\<open>#a\<close> and
  \<^verbatim>\<open>#b\<close>: with \<^verbatim>\<open>exclude_local\<close> set the group has no children, without it both
  references are entries of the group.
\<close>

theorem fragment_only_group:
  "get_mkdocs_toc
     (CompactParagraph
        [Caption g,
         BulletList c
           [ListItem c1 [CompactParagraph [Reference t1 (Some ''#a'')]],
            ListItem c2 [CompactParagraph [Reference t2 (Some ''#b'')]]]]) True
     = Inr [Entry (Some (render_title g)) None [] c]
   \<and> get_mkdocs_toc
     (CompactParagraph
        [Caption g,
         BulletList c
           [ListItem c1 [CompactParagraph [Reference t1 (Some ''#a'')]],
            ListItem c2 [CompactParagraph [Reference t2 (Some ''#b'')]]]]) False
     = Inr [Entry (Some (render_title g)) (Some ''#a'')
              [Entry (Some (render_title t1)) (Some ''#a'') [] c1,
               Entry (Some (render_title t2)) (Some ''#b'') [] c2] c]"
  by (simp add: toc_defs)

section \<open>References without a URL\<close>

text \<open>Without \<^verbatim>\<open>exclude_local\<close> no visit raises, so every walk returns.\<close>

lemma walk_returns:
  "\<not> v_exclude_local v \<Longrightarrow> \<exists>v'. walk v p i n = Inr v'"
  and walk_children_returns:
  "\<not> v_exclude_local v \<Longrightarrow> \<exists>v'. walk_children v i k ns = Inr v'"
proof (induction v p i n and v i k ns rule: walk_induct)
  case (Reference v p i texts refuri)
  then show ?case by (simp add: visit_reference_def Let_def)
next
  case (CompactParagraph v p i ns)
  then show ?case by simp
next
  case (Toctree v p i ns)
  show ?case by simp
next
  case (Paragraph v p i ns)
  then show ?case by simp
next
  case (Caption v p i texts)
  show ?case by simp
next
  case (BulletList v p i c ns)
  from BulletList.prems BulletList.IH[of "child_visitor (v_exclude_local v) c"]
  obtain cv where cv: "walk_children (child_visitor (v_exclude_local v) c) i 0 ns = Inr cv"
    by auto
  from BulletList.IH[OF BulletList.prems] obtain w where w: "walk_children v i 0 ns = Inr w"
    by auto
  from cv w show ?case
    by (simp add: walk_BulletList split: option.splits)
next
  case (ListItem v p i c ns)
  from ListItem.prems ListItem.IH[of "child_visitor (v_exclude_local v) c"]
  obtain cv where cv: "walk_children (child_visitor (v_exclude_local v) c) i 0 ns = Inr cv"
    by auto
  then show ?case by simp
next
  case (Nil v i k)
  show ?case by simp
next
  case (Cons v i k n ns)
  from Cons.IH(1)[OF Cons.prems] obtain w where w: "walk v (Some i) (i @ [k]) n = Inr w"
    by auto
  from walk_frame[OF w] Cons.prems have "\<not> v_exclude_local w" by simp
  from Cons.IH(2)[OF this] obtain v' where "walk_children w i (Suc k) ns = Inr v'" by auto
  with w show ?case by simp
qed

text \<open>
  C2. The converter should raise no exception, a reference without URL giving an
  entry whose URL is \<open>None\<close>. With \<^verbatim>\<open>exclude_local\<close> set, a tree with such a
  reference ends the conversion with an \<^verbatim>\<open>AttributeError\<close>; without
  \<^verbatim>\<open>exclude_local\<close> the same tree gives the entry with the URL \<open>None\<close>, and
  the conversion of every tree returns.
\<close>

theorem reference_without_url:
  "get_mkdocs_toc
     (BulletList False [ListItem False [CompactParagraph [Reference [''Title''] None]]]) True
     = Inl AttributeError
   \<and> get_mkdocs_toc
     (BulletList False [ListItem False [CompactParagraph [Reference [''Title''] None]]]) False
     = Inr [Entry (Some ''Title'') None [] False]
   \<and> (\<exists>entries. get_mkdocs_toc toc_node False = Inr entries)"
proof -
  have "\<not> v_exclude_local (init_visitor False)" by (simp add: init_visitor_def)
  from walk_returns[OF this, of None "[]" toc_node]
  have "\<exists>entries. get_mkdocs_toc toc_node False = Inr entries"
    by (auto simp: get_mkdocs_toc_def)
  then show ?thesis by (simp add: toc_defs render_title_def)
qed

section \<open>Conflicting post-processing options\<close>

lemma add_html_link_both:
  "html_minify a \<Longrightarrow> html_prettify a \<Longrightarrow>
     fst (add_html_link a pagename) = Some ValueError \<and>
     site_pages (snd (add_html_link a pagename)) = site_pages a \<and>
     html_minify (snd (add_html_link a pagename)) \<and>
     html_prettify (snd (add_html_link a pagename))"
  by (simp add: add_html_link_def Let_def)

lemma after_page_hooks_both:
  "html_minify a \<Longrightarrow> html_prettify a \<Longrightarrow>
     site_pages (after_page_hooks a pagenames) = site_pages a"
proof (induction pagenames arbitrary: a)
  case Nil
  show ?case by simp
next
  case (Cons pagename pagenames)
  from add_html_link_both[OF Cons.prems, of pagename]
  have m: "html_minify (snd (add_html_link a pagename))"
    and p: "html_prettify (snd (add_html_link a pagename))"
    and s: "site_pages (snd (add_html_link a pagename)) = site_pages a"
    by simp_all
  from Cons.IH[OF m p] s show ?case by simp
qed

text \<open>
  C7. With \<^verbatim>\<open>html_minify\<close> and \<^verbatim>\<open>html_prettify\<close> both set, the page hook raises
  \<^verbatim>\<open>ValueError\<close> and collects no page, so that after any calls of the hook on
  the lists as \<^verbatim>\<open>setup\<close> made them, \<^verbatim>\<open>reformat_pages\<close> writes nothing, whatever
  its \<^verbatim>\<open>exception\<close> argument. With at most one of them set the hook raises nothing.
\<close>

theorem minify_prettify_conflict:
  "(html_minify a \<and> html_prettify a \<longrightarrow>
      fst (add_html_link a pagename) = Some ValueError \<and>
      site_pages (snd (add_html_link a pagename)) = site_pages a \<and>
      (site_pages a = [] \<longrightarrow>
         fst (snd (reformat_pages (after_page_hooks a pagenames) exception_given)) = []))
   \<and> (\<not> (html_minify a \<and> html_prettify a) \<longrightarrow> fst (add_html_link a pagename) = None)"
proof (intro conjI impI)
  assume b: "html_minify a \<and> html_prettify a"
  then have m: "html_minify a" and p: "html_prettify a" by simp_all
  from add_html_link_both[OF m p]
  show "fst (add_html_link a pagename) = Some ValueError"
    and "site_pages (snd (add_html_link a pagename)) = site_pages a"
    by simp_all
  assume "site_pages a = []"
  with after_page_hooks_both[OF m p, of pagenames]
  show "fst (snd (reformat_pages (after_page_hooks a pagenames) exception_given)) = []"
    by (simp add: reformat_pages_def)
next
  assume "\<not> (html_minify a \<and> html_prettify a)"
  then show "fst (add_html_link a pagename) = None"
    by (auto simp: add_html_link_def Let_def)
qed

theorem minify_prettify_conflict_witness:
  "(html_minify \<lparr>site_url = ''https://example.org'', html_minify = True, html_prettify = True,
        link_suffix = ''.html'', outdir = ''_build'', sitemap_links = [], site_pages = []\<rparr>
    \<and> html_prettify \<lparr>site_url = ''https://example.org'', html_minify = True, html_prettify = True,
        link_suffix = ''.html'', outdir = ''_build'', sitemap_links = [], site_pages = []\<rparr>)
   \<and> fst (add_html_link \<lparr>site_url = ''https://example.org'', html_minify = True, html_prettify = True,
        link_suffix = ''.html'', outdir = ''_build'', sitemap_links = [], site_pages = []\<rparr> ''index'')
      = Some ValueError
   \<and> fst (snd (reformat_pages (after_page_hooks \<lparr>site_url = ''https://example.org'', html_minify = True,
        html_prettify = True, link_suffix = ''.html'', outdir = ''_build'', sitemap_links = [],
        site_pages = []\<rparr> [''index'', ''usage'']) False)) = []
   \<and> \<not> (html_minify \<lparr>site_url = ''https://example.org'', html_minify = True, html_prettify = False,
        link_suffix = ''.html'', outdir = ''_build'', sitemap_links = [], site_pages = []\<rparr>
      \<and> html_prettify \<lparr>site_url = ''https://example.org'', html_minify = True, html_prettify = False,
        link_suffix = ''.html'', outdir = ''_build'', sitemap_links = [], site_pages = []\<rparr>)
   \<and> add_html_link \<lparr>site_url = ''https://example.org'', html_minify = True, html_prettify = False,
        link_suffix = ''.html'', outdir = ''_build'', sitemap_links = [], site_pages = []\<rparr> ''index''
      = (None, \<lparr>site_url = ''https://example.org'', html_minify = True, html_prettify = False,
        link_suffix = ''.html'', outdir = ''_build'',
        sitemap_links = [''https://example.org/index.html''], site_pages = [''_build/index.html'']\<rparr>)"
  using minify_prettify_conflict
      [of "\<lparr>site_url = ''https://example.org'', html_minify = True, html_prettify = True,
        link_suffix = ''.html'', outdir = ''_build'', sitemap_links = [], site_pages = []\<rparr>"
        "''index''" "[''index'', ''usage'']" False]
    minify_prettify_conflict
      [of "\<lparr>site_url = ''https://example.org'', html_minify = True, html_prettify = False,
        link_suffix = ''.html'', outdir = ''_build'', sitemap_links = [], site_pages = []\<rparr>"
        "''index''" "[]" False]
  by (simp add: add_html_link_def os_path_join_def Let_def)

section \<open>Captions and the lists they group\<close>

text \<open>
  C10. A pending caption groups at most one list. A \<^verbatim>\<open>bullet_list\<close> with the parent of
  the pending caption is grouped under it: one entry with the caption's title is
  appended and no caption is pending afterwards, so that a further \<^verbatim>\<open>bullet_list\<close>
  with that parent is not wrapped (the visitor itself walks its items). A
  \<^verbatim>\<open>bullet_list\<close> with another parent is not wrapped by the pending caption either.
\<close>

theorem pending_caption_groups_once:
  "(v_prev_caption v = Some (texts, p) \<longrightarrow> walk v p i (BulletList c ns) = Inr v' \<longrightarrow>
      v_prev_caption v' = None \<and>
      (\<exists>u kids. v_children v' = v_children v @ [Entry (Some (render_title texts)) u kids c]) \<and>
      walk v' p j (BulletList c2 ns2) = walk_children v' j 0 ns2)
   \<and> (v_prev_caption v = Some (texts, q) \<longrightarrow> q \<noteq> p \<longrightarrow>
        walk v p i (BulletList c ns) = walk_children v i 0 ns)"
proof (intro conjI impI)
  assume pc: "v_prev_caption v = Some (texts, p)"
    and w: "walk v p i (BulletList c ns) = Inr v'"
  from pc w obtain cv where
    cv: "walk_children (child_visitor (v_exclude_local v) c) i 0 ns = Inr cv"
    and v': "v' = add_group (v\<lparr>v_prev_caption := None\<rparr>) (render_title texts) cv"
    by (auto simp: walk_BulletList split: sum.splits)
  from walk_children_frame[OF cv] have act: "v_active cv = c" by simp
  from v' show none: "v_prev_caption v' = None"
    by (simp add: add_group_def Let_def)
  from v' act
  show "\<exists>u kids. v_children v' = v_children v @ [Entry (Some (render_title texts)) u kids c]"
    by (simp add: add_group_def Let_def)
  from none show "walk v' p j (BulletList c2 ns2) = walk_children v' j 0 ns2"
    by (simp add: walk_BulletList)
next
  assume "v_prev_caption v = Some (texts, q)" and "q \<noteq> p"
  then show "walk v p i (BulletList c ns) = walk_children v i 0 ns"
    by (simp add: walk_BulletList)
qed

theorem pending_caption_groups_once_witness:
  "v_prev_caption (visit_caption (init_visitor False) [''Part''] (Some [])) = Some ([''Part''], Some [])
   \<and> walk (visit_caption (init_visitor False) [''Part''] (Some [])) (Some []) [1]
        (BulletList False [ListItem False [Reference [''A''] (Some ''a.html'')]])
      = Inr ((init_visitor False)
          \<lparr>v_children := [Entry (Some ''Part'') (Some ''a.html'')
                            [Entry (Some ''A'') (Some ''a.html'') [] False] False],
           v_local_only := False\<rparr>)
   \<and> walk ((init_visitor False)
          \<lparr>v_children := [Entry (Some ''Part'') (Some ''a.html'')
                            [Entry (Some ''A'') (Some ''a.html'') [] False] False],
           v_local_only := False\<rparr>) (Some []) [2]
        (BulletList False [ListItem False [Reference [''B''] (Some ''b.html'')]])
      = walk_children ((init_visitor False)
          \<lparr>v_children := [Entry (Some ''Part'') (Some ''a.html'')
                            [Entry (Some ''A'') (Some ''a.html'') [] False] False],
           v_local_only := False\<rparr>) [2] 0 [ListItem False [Reference [''B''] (Some ''b.html'')]]
   \<and> Some [] \<noteq> Some [0::nat]
   \<and> walk (visit_caption (init_visitor False) [''Part''] (Some [])) (Some [0]) [0, 0]
        (BulletList False [ListItem False [Reference [''A''] (Some ''a.html'')]])
      = walk_children (visit_caption (init_visitor False) [''Part''] (Some [])) [0, 0] 0
          [ListItem False [Reference [''A''] (Some ''a.html'')]]"
  using pending_caption_groups_once
      [of "visit_caption (init_visitor False) [''Part''] (Some [])" "[''Part'']" "Some []" "[1]"
          False "[ListItem False [Reference [''A''] (Some ''a.html'')]]"
          "(init_visitor False)
          \<lparr>v_children := [Entry (Some ''Part'') (Some ''a.html'')
                            [Entry (Some ''A'') (Some ''a.html'') [] False] False],
           v_local_only := False\<rparr>"
          "[2]" False "[ListItem False [Reference [''B''] (Some ''b.html'')]]" "Some []"]
    pending_caption_groups_once
      [of "visit_caption (init_visitor False) [''Part''] (Some [])" "[''Part'']" "Some [0]" "[0, 0]"
          False "[ListItem False [Reference [''A''] (Some ''a.html'')]]" _ _ _ _ "Some []"]
  by (simp add: toc_defs render_title_def)

section \<open>The active flag\<close>




section \<open>Order of the entries\<close>


lemma walk_children_items_length:
  "\<not> v_exclude_local v \<Longrightarrow> list_all is_list_item ns \<Longrightarrow> walk_children v i k ns = Inr v' \<Longrightarrow>
     length (v_children v') = length (v_children v) + length ns"
proof (induction ns arbitrary: v k)
  case Nil
  then show ?case by simp
next
  case (Cons n ns)
  from Cons.prems(2) have item: "is_list_item n" and rest: "list_all is_list_item ns"
    by simp_all
  from item obtain c cs where n: "n = ListItem c cs"
    by (cases n) (simp_all add: is_list_item_def)
  from Cons.prems(3) obtain w where w: "walk v (Some i) (i @ [k]) n = Inr w"
    and r: "walk_children w i (Suc k) ns = Inr v'"
    by (auto split: sum.splits)
  from walk_frame[OF w] Cons.prems(1) have e: "\<not> v_exclude_local w" by simp
  from w n Cons.prems(1) have "length (v_children w) = Suc (length (v_children v))"
    by (auto simp: add_item_def Let_def split: sum.splits)
  with Cons.IH[OF e rest r] show ?case by simp
qed



section \<open>Caption groups\<close>

text \<open>
  C4 (as amended). A caption directly followed, among the children of the same parent,
  by a \<^verbatim>\<open>bullet_list\<close> gives exactly one entry: its title is the text of the caption,
  its children are what a fresh visitor makes of the items of the list, in order, its URL
  is the URL of the first of these children, or \<open>None\<close> when there is none, and it
  is active when the list carries the marker. Without \<^verbatim>\<open>exclude_local\<close> a list of list
  items gives as many children as it has items (two for a list of two); with
  \<^verbatim>\<open>exclude_local\<close> set only the items that are not pruned are left.
\<close>

theorem caption_groups_following_list:
  "walk_children v i k [Caption texts, BulletList c ns] = Inr v' \<longrightarrow>
     (\<exists>cv. walk_children (child_visitor (v_exclude_local v) c) (i @ [Suc k]) 0 ns = Inr cv \<and>
        v_children v' =
          v_children v @
            [Entry (Some (render_title texts))
               (case v_children cv of [] \<Rightarrow> None | e # _ \<Rightarrow> url e) (v_children cv) c] \<and>
        (\<not> v_exclude_local v \<longrightarrow> list_all is_list_item ns \<longrightarrow>
           length (v_children cv) = length ns))"
proof
  assume a: "walk_children v i k [Caption texts, BulletList c ns] = Inr v'"
  then obtain cv where
    cv: "walk_children (child_visitor (v_exclude_local v) c) (i @ [Suc k]) 0 ns = Inr cv"
    and v': "v' = add_group ((visit_caption v texts (Some i))\<lparr>v_prev_caption := None\<rparr>)
                    (render_title texts) cv"
    by (auto simp: walk_BulletList visit_caption_def split: sum.splits)
  from walk_children_frame[OF cv] have act: "v_active cv = c" by simp
  have len: "length (v_children cv) = length ns"
    if "\<not> v_exclude_local v" and "list_all is_list_item ns"
    using walk_children_items_length[OF _ that(2) cv] that(1) by simp
  from cv v' act len
  show "\<exists>cv. walk_children (child_visitor (v_exclude_local v) c) (i @ [Suc k]) 0 ns = Inr cv \<and>
        v_children v' =
          v_children v @
            [Entry (Some (render_title texts))
               (case v_children cv of [] \<Rightarrow> None | e # _ \<Rightarrow> url e) (v_children cv) c] \<and>
        (\<not> v_exclude_local v \<longrightarrow> list_all is_list_item ns \<longrightarrow>
           length (v_children cv) = length ns)"
    by (auto simp: add_group_def visit_caption_def Let_def)
qed

theorem caption_groups_following_list_witness:
  "walk_children (init_visitor False) [] 0
       [Caption [''Chapter 1''],
        BulletList False
          [ListItem False [CompactParagraph [Reference [''Intro''] (Some ''intro.html'')]],
           ListItem False [CompactParagraph [Reference [''Setup''] (Some ''#setup'')]]]]
     = Inr ((init_visitor False)
         \<lparr>v_children :=
            [Entry (Some ''Chapter 1'') (Some ''intro.html'')
               [Entry (Some ''Intro'') (Some ''intro.html'') [] False,
                Entry (Some ''Setup'') (Some ''#setup'') [] False] False],
          v_local_only := False\<rparr>)
   \<and> \<not> v_exclude_local (init_visitor False)
   \<and> list_all is_list_item
       [ListItem False [CompactParagraph [Reference [''Intro''] (Some ''intro.html'')]],
        ListItem False [CompactParagraph [Reference [''Setup''] (Some ''#setup'')]]]"
  using caption_groups_following_list
      [of "init_visitor False" "[]" 0 "[''Chapter 1'']" False
          "[ListItem False [CompactParagraph [Reference [''Intro''] (Some ''intro.html'')]],
            ListItem False [CompactParagraph [Reference [''Setup''] (Some ''#setup'')]]]"
          "(init_visitor False)
         \<lparr>v_children :=
            [Entry (Some ''Chapter 1'') (Some ''intro.html'')
               [Entry (Some ''Intro'') (Some ''intro.html'') [] False,
                Entry (Some ''Setup'') (Some ''#setup'') [] False] False],
          v_local_only := False\<rparr>"]
  by (simp add: toc_defs render_title_def is_list_item_def)

text \<open>
  The claim as it was stated fails: with \<^verbatim>\<open>exclude_local\<close> set, the group of a list of
  two items with fragment-only URLs has no children, not two.
\<close>

theorem caption_group_length_counterexample:
  "get_mkdocs_toc
     (CompactParagraph
        [Caption [''Chapter 1''],
         BulletList False
           [ListItem False [CompactParagraph [Reference [''One''] (Some ''#one'')]],
            ListItem False [CompactParagraph [Reference [''Two''] (Some ''#two'')]]]]) True
     = Inr [Entry (Some ''Chapter 1'') None [] False]"
  by (simp add: toc_defs render_title_def)

section \<open>Several references in one list item\<close>

text \<open>
  The title and the URL of a visitor after a walk are those of the last reference it
  visited itself, and unchanged when it visited none.
\<close>

lemma walk_visited_references:
  "walk v p i n = Inr v' \<Longrightarrow>
   visited_references (map_option snd (v_prev_caption v)) p i n = (rs, pc') \<Longrightarrow>
     map_option snd (v_prev_caption v') = pc' \<and>
     (v_rendered_title v', v_url v') =
       (if rs = [] then (v_rendered_title v, v_url v)
        else (Some (render_title (fst (last rs))), snd (last rs)))"
  and walk_children_visited_references:
  "walk_children v i k ns = Inr v' \<Longrightarrow>
   visited_references_children (map_option snd (v_prev_caption v)) i k ns = (rs, pc') \<Longrightarrow>
     map_option snd (v_prev_caption v') = pc' \<and>
     (v_rendered_title v', v_url v') =
       (if rs = [] then (v_rendered_title v, v_url v)
        else (Some (render_title (fst (last rs))), snd (last rs)))"
proof (induction v p i n and v i k ns arbitrary: v' rs pc' and v' rs pc' rule: walk_induct)
  case (Reference v p i texts refuri)
  then show ?case
    by (auto simp: visit_reference_def Let_def split: if_splits option.splits)
next
  case (CompactParagraph v p i ns)
  from CompactParagraph.IH[of v v' rs pc'] CompactParagraph.prems show ?case by simp
next
  case (Toctree v p i ns)
  then show ?case by auto
next
  case (Paragraph v p i ns)
  from Paragraph.IH[of v v' rs pc'] Paragraph.prems show ?case by simp
next
  case (Caption v p i texts)
  then show ?case by (auto simp: visit_caption_def)
next
  case (BulletList v p i c ns)
  show ?case
  proof (cases "\<exists>texts. v_prev_caption v = Some (texts, p)")
    case True
    then obtain texts where pc: "v_prev_caption v = Some (texts, p)" by blast
    with BulletList.prems(1) obtain cv where
      v': "v' = add_group (v\<lparr>v_prev_caption := None\<rparr>) (render_title texts) cv"
      by (auto simp: walk_BulletList split: sum.splits)
    from pc BulletList.prems(2) have "rs = []" and "pc' = None" by simp_all
    with v' show ?thesis by (simp add: add_group_def Let_def)
  next
    case False
    then have ne: "map_option snd (v_prev_caption v) \<noteq> Some p" by auto
    from False BulletList.prems(1) have w: "walk_children v i 0 ns = Inr v'"
      by (auto simp: walk_BulletList split: option.splits if_splits)
    from ne BulletList.prems(2)
    have r: "visited_references_children (map_option snd (v_prev_caption v)) i 0 ns = (rs, pc')"
      by simp
    from BulletList.IH[OF w r] show ?thesis .
  qed
next
  case (ListItem v p i c ns)
  then show ?case
    by (auto simp: add_item_def Let_def split: sum.splits if_splits)
next
  case (Nil v i k)
  then show ?case by auto
next
  case (Cons v i k n ns)
  from Cons.prems(1) obtain w where w: "walk v (Some i) (i @ [k]) n = Inr w"
    and r: "walk_children w i (Suc k) ns = Inr v'"
    by (auto split: sum.splits)
  obtain rs1 pc1 where s1:
    "visited_references (map_option snd (v_prev_caption v)) (Some i) (i @ [k]) n = (rs1, pc1)"
    by (cases "visited_references (map_option snd (v_prev_caption v)) (Some i) (i @ [k]) n")
  obtain rs2 pc2 where s2: "visited_references_children pc1 i (Suc k) ns = (rs2, pc2)"
    by (cases "visited_references_children pc1 i (Suc k) ns")
  from Cons.prems(2) s1 s2 have rs: "rs = rs1 @ rs2" and pc: "pc' = pc2" by simp_all
  from Cons.IH(1)[OF w s1] have a: "map_option snd (v_prev_caption w) = pc1"
    and b: "(v_rendered_title w, v_url w) =
       (if rs1 = [] then (v_rendered_title v, v_url v)
        else (Some (render_title (fst (last rs1))), snd (last rs1)))"
    by simp_all
  from s2 a have s2': "visited_references_children (map_option snd (v_prev_caption w)) i (Suc k) ns = (rs2, pc2)"
    by simp
  from Cons.IH(2)[OF r s2'] have c: "map_option snd (v_prev_caption v') = pc2"
    and d: "(v_rendered_title v', v_url v') =
       (if rs2 = [] then (v_rendered_title w, v_url w)
        else (Some (render_title (fst (last rs2))), snd (last rs2)))"
    by simp_all
  from b c d rs pc show ?case by (cases "rs2 = []") simp_all
qed

text \<open>
  C9. Every visit of a reference overwrites the title and the URL of the visitor. So
  when the visitor of a list item visits more than one reference below the item, the
  entry of the item has the title and the URL of the last of them. The references of
  nested list items, of grouped lists and of toctrees are not visited by this visitor.
\<close>

theorem last_reference_wins:
  "(visit_reference v0 texts refuri = Inr v' \<longrightarrow>
      v_rendered_title v' = Some (render_title texts) \<and> v_url v' = refuri)
   \<and> (walk v p i (ListItem c ns) = Inr w \<longrightarrow>
        visited_references_children None i 0 ns = (rs, pc) \<longrightarrow> 1 < length rs \<longrightarrow>
        (\<exists>cv. walk_children (child_visitor (v_exclude_local v) c) i 0 ns = Inr cv \<and>
           title (get_result cv) = Some (render_title (fst (last rs))) \<and>
           url (get_result cv) = snd (last rs) \<and>
           v_children w =
             (if v_exclude_local v \<and> v_local_only cv then v_children v
              else v_children v @ [get_result cv])))"
proof (intro conjI impI)
  assume "visit_reference v0 texts refuri = Inr v'"
  then show "v_rendered_title v' = Some (render_title texts)" and "v_url v' = refuri"
    by (auto simp: visit_reference_def Let_def split: if_splits option.splits)
next
  assume a: "walk v p i (ListItem c ns) = Inr w"
    and s: "visited_references_children None i 0 ns = (rs, pc)"
    and l: "1 < length rs"
  from a obtain cv where
    cv: "walk_children (child_visitor (v_exclude_local v) c) i 0 ns = Inr cv"
    and w: "w = add_item v cv"
    by (auto split: sum.splits)
  from s have s': "visited_references_children
      (map_option snd (v_prev_caption (child_visitor (v_exclude_local v) c))) i 0 ns = (rs, pc)"
    by simp
  from l have "rs \<noteq> []" by auto
  with walk_children_visited_references[OF cv s']
  have "v_rendered_title cv = Some (render_title (fst (last rs)))" and "v_url cv = snd (last rs)"
    by simp_all
  with cv w
  show "\<exists>cv. walk_children (child_visitor (v_exclude_local v) c) i 0 ns = Inr cv \<and>
           title (get_result cv) = Some (render_title (fst (last rs))) \<and>
           url (get_result cv) = snd (last rs) \<and>
           v_children w =
             (if v_exclude_local v \<and> v_local_only cv then v_children v
              else v_children v @ [get_result cv])"
    by (simp add: add_item_def get_result_def Let_def)
qed

theorem last_reference_wins_witness:
  "visit_reference ((init_visitor False)\<lparr>v_rendered_title := Some ''Old'', v_url := Some ''old.html''\<rparr>)
       [''New''] (Some ''new.html'')
     = Inr ((init_visitor False)\<lparr>v_rendered_title := Some ''New'', v_url := Some ''new.html''\<rparr>)
   \<and> walk (init_visitor False) None []
        (ListItem False
           [CompactParagraph [Reference [''First''] (Some ''first.html'')],
            BulletList False [ListItem False [Reference [''Inner''] (Some ''inner.html'')]],
            Paragraph [Reference [''Last''] (Some ''last.html'')]])
      = Inr ((init_visitor False)
          \<lparr>v_children :=
             [Entry (Some ''Last'') (Some ''last.html'')
                [Entry (Some ''Inner'') (Some ''inner.html'') [] False] False],
           v_local_only := False\<rparr>)
   \<and> visited_references_children None [] 0
        [CompactParagraph [Reference [''First''] (Some ''first.html'')],
         BulletList False [ListItem False [Reference [''Inner''] (Some ''inner.html'')]],
         Paragraph [Reference [''Last''] (Some ''last.html'')]]
      = ([([''First''], Some ''first.html''), ([''Last''], Some ''last.html'')], None)
   \<and> 1 < length [([''First''], Some ''first.html''), ([''Last''], Some ''last.html'')]"
  using last_reference_wins
      [of "(init_visitor False)\<lparr>v_rendered_title := Some ''Old'', v_url := Some ''old.html''\<rparr>"
          "[''New'']" "Some ''new.html''"
          "(init_visitor False)\<lparr>v_rendered_title := Some ''New'', v_url := Some ''new.html''\<rparr>"
          "init_visitor False" None "[]" False
          "[CompactParagraph [Reference [''First''] (Some ''first.html'')],
            BulletList False [ListItem False [Reference [''Inner''] (Some ''inner.html'')]],
            Paragraph [Reference [''Last''] (Some ''last.html'')]]"
          "(init_visitor False)
          \<lparr>v_children :=
             [Entry (Some ''Last'') (Some ''last.html'')
                [Entry (Some ''Inner'') (Some ''inner.html'') [] False] False],
           v_local_only := False\<rparr>"
          "[([''First''], Some ''first.html''), ([''Last''], Some ''last.html'')]" None]
  by (simp add: toc_defs render_title_def)

section \<open>Independence of the identity of the nodes\<close>

lemma move_visitor_fields [simp]:
  "v_rendered_title (move_visitor r v) = v_rendered_title v"
  "v_url (move_visitor r v) = v_url v"
  "v_active (move_visitor r v) = v_active v"
  "v_children (move_visitor r v) = v_children v"
  "v_exclude_local (move_visitor r v) = v_exclude_local v"
  "v_local_only (move_visitor r v) = v_local_only v"
  by (simp_all add: move_visitor_def)

lemma move_visitor_fresh [simp]:
  "move_visitor r (child_visitor e c) = child_visitor e c"
  "move_visitor r (init_visitor e) = init_visitor e"
  by (simp_all add: move_visitor_def child_visitor_def init_visitor_def Let_def)









end
